theory Spec2Isabelle
  imports Complex_Main "HOL-Library.Word"
begin

unbundle bit_operations_syntax

section \<open>VentoExpert UDP protocol: codec, retry orchestrator and coordinator\<close>

text \<open>
  A shallow embedding of \<^verbatim>\<open>custom_components/ventoexpertv2/sensor.py\<close>.

  \<^item> Python \<^verbatim>\<open>bytes\<close> is a list of 8-bit words; reading an element
    (\<^verbatim>\<open>data[pos]\<close>) gives a Python integer, here \<open>uint\<close> of the byte.
  \<^item> Python integers are \<open>int\<close>; \<^verbatim>\<open>>>\<close> is \<open>drop_bit\<close>,
    \<^verbatim>\<open><<\<close> is \<open>push_bit\<close>, \<^verbatim>\<open>&\<close> and \<^verbatim>\<open>|\<close> are
    \<open>AND\<close> and \<open>OR\<close>.
  \<^item> A Python \<^verbatim>\<open>str\<close> is a \<open>string\<close>; a character of code 128 or more stands
    for any non-ASCII code point (\<^verbatim>\<open>encode("ascii")\<close> raises on all of them).
  \<^item> Every exception is a value of \<open>error\<close>, and a function that can raise returns
    \<open>error + 'a\<close>.
  \<^item> The dictionary returned by the parser is a map from integer keys to values that are
    either an integer or a tuple of integers.
\<close>

subsection \<open>Bytes, exceptions and the Python primitives used\<close>

type_synonym byte = "8 word"
type_synonym bytes = "byte list"

datatype error =
    UnicodeEncodeError
  | ValueError
  | IndexError
  | UpdateFailed "error option"

datatype pyval = IntV int | TupleV "int list"

type_synonym dict = "int \<rightharpoonup> pyval"

text \<open>\<^verbatim>\<open>bytes([...])\<close>: raises ValueError unless every element is in \<open>range(256)\<close>.\<close>

definition py_bytes :: "int list \<Rightarrow> error + bytes" where
  "py_bytes xs =
     (if list_all (\<lambda>x. 0 \<le> x \<and> x < 256) xs then Inr (map word_of_int xs)
      else Inl ValueError)"

text \<open>\<^verbatim>\<open>s.encode("ascii")\<close>: one byte per character, UnicodeEncodeError on a
  character outside ASCII.\<close>

definition encode_ascii :: "string \<Rightarrow> error + bytes" where
  "encode_ascii s =
     (if list_all (\<lambda>c. (of_char c :: nat) < 128) s then Inr (map of_char s)
      else Inl UnicodeEncodeError)"

text \<open>\<^verbatim>\<open>b.ljust(width, fill)\<close>: pads on the right up to \<open>width\<close>; a longer value is
  returned as it is.\<close>

definition ljust :: "bytes \<Rightarrow> nat \<Rightarrow> byte \<Rightarrow> bytes" where
  "ljust b width fill = b @ replicate (width - length b) fill"

text \<open>\<^verbatim>\<open>data[i]\<close> for a non-negative index: IndexError out of range.\<close>

definition getitem :: "bytes \<Rightarrow> nat \<Rightarrow> error + int" where
  "getitem data i = (if i < length data then Inr (uint (data ! i)) else Inl IndexError)"

text \<open>\<^verbatim>\<open>data[i:j]\<close> for non-negative bounds: never raises, clips at the end.\<close>

definition slice :: "bytes \<Rightarrow> nat \<Rightarrow> nat \<Rightarrow> bytes" where
  "slice data i j = take (j - i) (drop i data)"

text \<open>\<^verbatim>\<open>data.index(x)\<close>: the first position holding \<open>x\<close>, ValueError when there is
  none.\<close>

fun bytes_index :: "bytes \<Rightarrow> int \<Rightarrow> error + nat" where
  "bytes_index [] x = Inl ValueError"
| "bytes_index (b # bs) x =
     (if uint b = x then Inr 0
      else (case bytes_index bs x of Inl e \<Rightarrow> Inl e | Inr i \<Rightarrow> Inr (Suc i)))"

subsection \<open>Request framing\<close>

text \<open>
  \<^verbatim>\<open>
  def calc_checksum(packet: bytes) -> bytes:
      checksum = sum(packet) & 0xFFFF
      return bytes([checksum & 0xFF, (checksum >> 8) & 0xFF])
  \<close>
\<close>

definition calc_checksum :: "bytes \<Rightarrow> error + bytes" where
  "calc_checksum packet =
     (let checksum = sum_list (map uint packet) AND 0xFFFF
      in py_bytes [checksum AND 0xFF, drop_bit 8 checksum AND 0xFF])"

text \<open>
  The loop of \<open>build_read_packet\<close> over the parameter list, with the block built so far:
  \<^verbatim>\<open>
  for param in params:
      high = (param >> 8) & 0xFF
      low = param & 0xFF
      if high > 0:
          data_block += bytes([0xFF, high])
      data_block += bytes([low])
  \<close>
\<close>

fun data_block_loop :: "int list \<Rightarrow> bytes \<Rightarrow> error + bytes" where
  "data_block_loop [] data_block = Inr data_block"
| "data_block_loop (param # params) data_block =
     (let high = drop_bit 8 param AND 0xFF;
          low = param AND 0xFF
      in case (if high > 0
               then (case py_bytes [0xFF, high] of
                       Inl e \<Rightarrow> Inl e
                     | Inr esc \<Rightarrow> Inr (data_block @ esc))
               else Inr data_block) of
           Inl e \<Rightarrow> Inl e
         | Inr data_block1 \<Rightarrow>
             (case py_bytes [low] of
                Inl e \<Rightarrow> Inl e
              | Inr lo \<Rightarrow> data_block_loop params (data_block1 @ lo)))"

text \<open>
  \<^verbatim>\<open>
  def build_read_packet(device_id: str, password: str, params: list[int]) -> bytes:
      start = bytes([0xFD, 0xFD])
      type_byte = bytes([0x02])
      size_id = bytes([0x10])
      id_bytes = device_id.encode("ascii").ljust(16, b"\x00")
      size_pwd = bytes([0x04])
      pwd_bytes = password.encode("ascii").ljust(4, b"\x00")
      func = bytes([0x01])
      data_block = b""
      for param in params: ...
      body = type_byte + size_id + id_bytes + size_pwd + pwd_bytes + func + data_block
      checksum = calc_checksum(body)
      return start + body + checksum
  \<close>
  The constant byte strings are written as literals; the computed ones go through
  \<open>py_bytes\<close>. The order of the steps is the order in which the source can raise.
\<close>

definition build_read_packet :: "string \<Rightarrow> string \<Rightarrow> int list \<Rightarrow> error + bytes" where
  "build_read_packet device_id password params =
     (let start = [0xFD, 0xFD];
          type_byte = [0x02];
          size_id = [0x10]
      in case encode_ascii device_id of
           Inl e \<Rightarrow> Inl e
         | Inr enc_id \<Rightarrow>
             (let id_bytes = ljust enc_id 16 0x00;
                  size_pwd = [0x04]
              in case encode_ascii password of
                   Inl e \<Rightarrow> Inl e
                 | Inr enc_pwd \<Rightarrow>
                     (let pwd_bytes = ljust enc_pwd 4 0x00;
                          func = [0x01]
                      in case data_block_loop params [] of
                           Inl e \<Rightarrow> Inl e
                         | Inr data_block \<Rightarrow>
                             (let body = type_byte @ size_id @ id_bytes @ size_pwd
                                           @ pwd_bytes @ func @ data_block
                              in case calc_checksum body of
                                   Inl e \<Rightarrow> Inl e
                                 | Inr checksum \<Rightarrow> Inr (start @ body @ checksum)))))"

subsection \<open>Response parsing\<close>

text \<open>
  The loop of \<open>parse_ventoexpert_response\<close>, from the position \<open>pos\<close> with the
  dictionary built so far:
  \<^verbatim>\<open>
  while pos < len(data) - 2:
      param = data[pos]
      pos += 1
      if param == 0x64:
          if pos + 3 > len(data):
              break
          value = tuple(data[pos : pos + 3])
          result[param] = value
          pos += 3
      elif param in (0x4A, 0x4B):
          if pos + 2 > len(data):
              break
          value = data[pos] | (data[pos + 1] << 8)
          result[param] = value
          pos += 2
      else:
          if pos >= len(data):
              break
          value = data[pos]
          result[param] = value
          pos += 1
  return result
  \<close>
  Every \<^verbatim>\<open>data[...]\<close> is the checked \<open>getitem\<close>, so an out-of-range read would
  show as \<open>Inl IndexError\<close>.
\<close>

function parse_loop :: "bytes \<Rightarrow> nat \<Rightarrow> dict \<Rightarrow> error + dict" where
  "parse_loop data pos result =
     (if int pos < int (length data) - 2 then
        (case getitem data pos of
           Inl e \<Rightarrow> Inl e
         | Inr param \<Rightarrow>
             (let pos1 = pos + 1 in
              if param = 0x64 then
                (if pos1 + 3 > length data then Inr result
                 else
                   (let value = TupleV (map uint (slice data pos1 (pos1 + 3)))
                    in parse_loop data (pos1 + 3) (result(param \<mapsto> value))))
              else if param = 0x4A \<or> param = 0x4B then
                (if pos1 + 2 > length data then Inr result
                 else
                   (case getitem data pos1 of
                      Inl e \<Rightarrow> Inl e
                    | Inr lo \<Rightarrow>
                        (case getitem data (pos1 + 1) of
                           Inl e \<Rightarrow> Inl e
                         | Inr hi \<Rightarrow>
                             (let value = IntV (lo OR push_bit 8 hi)
                              in parse_loop data (pos1 + 2) (result(param \<mapsto> value))))))
              else
                (if pos1 \<ge> length data then Inr result
                 else
                   (case getitem data pos1 of
                      Inl e \<Rightarrow> Inl e
                    | Inr v \<Rightarrow>
                        (let value = IntV v
                         in parse_loop data (pos1 + 1) (result(param \<mapsto> value)))))))
      else Inr result)"
  by pat_completeness auto
termination
  by (relation "measure (\<lambda>(data, pos, result). length data - pos)") auto

text \<open>
  \<^verbatim>\<open>
  def parse_ventoexpert_response(data: bytes) -> dict:
      if not data or len(data) < 20:
          return {}
      try:
          func_index = data.index(0x06)
      except ValueError:
          return {}
      pos = func_index + 1
      result = {}
      while ...
      return result
  \<close>
\<close>

definition parse_ventoexpert_response :: "bytes \<Rightarrow> error + dict" where
  "parse_ventoexpert_response data =
     (if data = [] \<or> length data < 20 then Inr Map.empty
      else case bytes_index data 0x06 of
             Inl ValueError \<Rightarrow> Inr Map.empty
           | Inl e \<Rightarrow> Inl e
           | Inr func_index \<Rightarrow> parse_loop data (func_index + 1) Map.empty)"

subsection \<open>Transport and retry orchestrator\<close>

text \<open>
  The network is outside the program. It is a parameter: what the socket exchange of the
  \<open>k\<close>-th call yields for a host, a port and a packet, \<open>None\<close> for a timeout or a
  socket error. The state records the number of calls made and, in order, every datagram
  exchange and every \<^verbatim>\<open>asyncio.sleep\<close> with its delay in seconds.
\<close>

datatype event = SendUdp | Sleep rat

record io =
  calls :: nat
  events :: "event list"

type_synonym network = "string \<Rightarrow> int \<Rightarrow> bytes \<Rightarrow> nat \<Rightarrow> bytes option"

text \<open>
  \<^verbatim>\<open>
  def _send_udp(host, port, packet) -> bytes:
      sock = socket.socket(socket.AF_INET, socket.SOCK_DGRAM)
      sock.settimeout(2.0)
      try:
          sock.sendto(packet, (host, port))
          data, _ = sock.recvfrom(1024)
          return data
      except socket.timeout:
          return b""
      except Exception as e:
          return b""
      finally:
          sock.close()
  \<close>
  Creating the socket is taken to succeed; every failure of the exchange itself is the
  \<open>None\<close> of the network.
\<close>

definition send_udp :: "network \<Rightarrow> string \<Rightarrow> int \<Rightarrow> bytes \<Rightarrow> io \<Rightarrow> bytes \<times> io" where
  "send_udp net host port packet s =
     (let s1 = s\<lparr>calls := calls s + 1, events := events s @ [SendUdp]\<rparr>
      in case net host port packet (calls s) of
           Some data \<Rightarrow> (data, s1)
         | None \<Rightarrow> ([], s1))"

text \<open>
  \<^verbatim>\<open>
  async def udp_request(host, port, packet, retries: int = 3) -> bytes:
      for attempt in range(retries):
          data = await asyncio.to_thread(_send_udp, host, port, packet)
          if data:
              return data
          else:
              await asyncio.sleep(0.5)
      return b""
  \<close>
  The loop runs \<open>attempt\<close> from 0 while it is below \<open>retries\<close>.
\<close>

function udp_request_loop ::
  "network \<Rightarrow> string \<Rightarrow> int \<Rightarrow> bytes \<Rightarrow> int \<Rightarrow> int \<Rightarrow> io \<Rightarrow> bytes \<times> io" where
  "udp_request_loop net host port packet retries attempt s =
     (if attempt < retries then
        (case send_udp net host port packet s of
           (data, s1) \<Rightarrow>
             if data \<noteq> [] then (data, s1)
             else udp_request_loop net host port packet retries (attempt + 1)
                    (s1\<lparr>events := events s1 @ [Sleep (1 / 2)]\<rparr>))
      else ([], s))"
  by pat_completeness auto
termination
  by (relation "measure (\<lambda>(net, host, port, packet, retries, attempt, s).
                  nat (retries - attempt))") auto

definition udp_request ::
  "network \<Rightarrow> string \<Rightarrow> int \<Rightarrow> bytes \<Rightarrow> int \<Rightarrow> io \<Rightarrow> bytes \<times> io" where
  "udp_request net host port packet retries s =
     udp_request_loop net host port packet retries 0 s"

text \<open>
  What the \<open>k\<close>-th call of \<open>send_udp\<close> returns: the datagram, or the empty bytes
  for a timeout or a socket error.
\<close>

definition reply :: "network \<Rightarrow> string \<Rightarrow> int \<Rightarrow> bytes \<Rightarrow> nat \<Rightarrow> bytes" where
  "reply net host port packet k = fst (send_udp net host port packet \<lparr>calls = k, events = []\<rparr>)"

subsection \<open>Coordinator\<close>

record config =
  cfg_host :: string
  cfg_port :: int
  cfg_device_id :: string
  cfg_password :: string
  cfg_params :: "int list"

text \<open>
  \<^verbatim>\<open>
  async def _async_update_data(self):
      try:
          packet = build_read_packet(self.device_id, self.password, self.params)
          data = await udp_request(self.host, self.port, packet)
          if not data:
              raise UpdateFailed("Keine Antwort vom Geraet")
          parsed = parse_ventoexpert_response(data)
          return parsed
      except Exception as err:
          raise UpdateFailed(f"Fehler beim Abrufen der Daten: {err}")
  \<close>
  \<open>UpdateFailed None\<close> is the exception raised inside the \<^verbatim>\<open>try\<close>;
  \<open>UpdateFailed (Some err)\<close> is the one the handler raises for the exception \<open>err\<close> it
  caught, which includes the inner \<open>UpdateFailed\<close>. \<open>udp_request\<close> is called with
  its default of 3 retries.
\<close>

definition async_update_data :: "network \<Rightarrow> config \<Rightarrow> io \<Rightarrow> (error + dict) \<times> io" where
  "async_update_data net cfg s =
     (case build_read_packet (cfg_device_id cfg) (cfg_password cfg) (cfg_params cfg) of
        Inl err \<Rightarrow> (Inl (UpdateFailed (Some err)), s)
      | Inr packet \<Rightarrow>
          (case udp_request net (cfg_host cfg) (cfg_port cfg) packet 3 s of
             (data, s1) \<Rightarrow>
               if data = [] then (Inl (UpdateFailed (Some (UpdateFailed None))), s1)
               else
                 (case parse_ventoexpert_response data of
                    Inl err \<Rightarrow> (Inl (UpdateFailed (Some err)), s1)
                  | Inr parsed \<Rightarrow> (Inr parsed, s1))))"

text \<open>
  The state of the coordinator: the latest snapshot (\<^verbatim>\<open>coordinator.data\<close>) and
  the snapshots handed to the subscribers so far, oldest first.
\<close>

record coordinator =
  snapshot :: dict
  delivered :: "dict list"

text \<open>
  Modelled from the spec: the base class \<^verbatim>\<open>DataUpdateCoordinator\<close> of the host
  platform, which calls \<^verbatim>\<open>_async_update_data\<close> once per cycle, is not part of the
  repository. Section 4.5 of the specification gives its contract: when the cycle fails
  the previous snapshot is left untouched and no new data is delivered; otherwise the
  snapshot is replaced and the subscribers are notified.
\<close>

definition poll_cycle ::
  "network \<Rightarrow> config \<Rightarrow> coordinator \<times> io \<Rightarrow> (error + dict) \<times> coordinator \<times> io" where
  "poll_cycle net cfg st =
     (case st of (c, s) \<Rightarrow>
        (case async_update_data net cfg s of
           (Inl err, s1) \<Rightarrow> (Inl err, c, s1)
         | (Inr parsed, s1) \<Rightarrow>
             (Inr parsed, c\<lparr>snapshot := parsed, delivered := delivered c @ [parsed]\<rparr>, s1)))"

subsection \<open>The request layout of the specification\<close>

text \<open>
  The specification's parameter entry: the escape byte 0xFF, the high byte and the low
  byte when the high byte is not zero, the low byte alone otherwise; and its checksum:
  the sum of the bytes modulo 65536 as two bytes, low byte first.
\<close>

definition spec_param_entry :: "int \<Rightarrow> bytes" where
  "spec_param_entry p =
     (if (p div 256) mod 256 \<noteq> 0
      then [0xFF, word_of_int ((p div 256) mod 256), word_of_int (p mod 256)]
      else [word_of_int (p mod 256)])"

definition spec_checksum :: "bytes \<Rightarrow> bytes" where
  "spec_checksum body =
     (let c = sum_list (map uint body) mod 65536
      in [word_of_int (c mod 256), word_of_int (c div 256)])"

subsection \<open>The width rule of the specification\<close>

text \<open>
  The specification's reading of a response: after the function marker, fields of one
  id byte and a value whose width depends on the id (3 bytes for 0x64, 2 bytes for 0x4A
  and 0x4B, 1 byte otherwise); a 3-byte value is a tuple, a 2-byte value a little-endian
  integer, a 1-byte value an integer; storing a field overwrites the entry of its id.
  These definitions follow the specification's words and are compared with the loop
  above.
\<close>

definition spec_width :: "int \<Rightarrow> nat" where
  "spec_width i = (if i = 0x64 then 3 else if i = 0x4A \<or> i = 0x4B then 2 else 1)"

definition spec_decode :: "int \<Rightarrow> bytes \<Rightarrow> pyval" where
  "spec_decode i v =
     (if i = 0x64 then TupleV (map uint v)
      else if i = 0x4A \<or> i = 0x4B then IntV (uint (v ! 0) + 256 * uint (v ! 1))
      else IntV (uint (v ! 0)))"

definition spec_store :: "byte \<times> bytes \<Rightarrow> dict \<Rightarrow> dict" where
  "spec_store e m = (case e of (i, v) \<Rightarrow> m(uint i \<mapsto> spec_decode (uint i) v))"

definition spec_frame :: "(byte \<times> bytes) list \<Rightarrow> bytes" where
  "spec_frame es = concat (map (\<lambda>(i, v). i # v) es)"

text \<open>
  What the dictionary of the parser may hold: a key is a byte value; the value under
  0x64 is a tuple of three byte values, under 0x4A and 0x4B an integer below 65536, and
  under any other key a byte value.
\<close>

definition value_ok :: "int \<Rightarrow> pyval \<Rightarrow> bool" where
  "value_ok k v =
     (if k = 0x64 then
        (case v of TupleV xs \<Rightarrow> length xs = 3 \<and> list_all (\<lambda>x. 0 \<le> x \<and> x \<le> 255) xs
                 | IntV n \<Rightarrow> False)
      else if k = 0x4A \<or> k = 0x4B then
        (case v of IntV n \<Rightarrow> 0 \<le> n \<and> n \<le> 65535 | TupleV xs \<Rightarrow> False)
      else
        (case v of IntV n \<Rightarrow> 0 \<le> n \<and> n \<le> 255 | TupleV xs \<Rightarrow> False))"

definition dict_ok :: "dict \<Rightarrow> bool" where
  "dict_ok m = (\<forall>k v. m k = Some v \<longrightarrow> 0 \<le> k \<and> k \<le> 255 \<and> value_ok k v)"

section \<open>Properties of the parser\<close>

declare parse_loop.simps [simp del]

lemma uint_byte_bounds: "0 \<le> uint (b :: byte) \<and> uint b < 256"
  using uint_bounded [of b] by simp

lemma or_push_bit_8: "uint (lo :: byte) OR push_bit 8 hi = uint lo + 256 * hi"
proof -
  have "take_bit 8 (uint lo) = uint lo"
    using uint_byte_bounds [of lo] by (simp add: take_bit_int_eq_self_iff)
  moreover have "take_bit 8 (uint lo) OR push_bit 8 hi = take_bit 8 (uint lo) + push_bit 8 hi"
    using concat_bit_eq [of 8 "uint lo" hi] by (simp add: concat_bit_def)
  ultimately show ?thesis by (simp add: push_bit_eq_mult)
qed

lemma parse_loop_stop: "\<not> pos + 2 < length data \<Longrightarrow> parse_loop data pos r = Inr r"
  by (subst parse_loop.simps) auto

lemma parse_loop_break:
  assumes "pos + 2 < length data" "uint (data ! pos) = 0x64" "\<not> pos + 4 \<le> length data"
  shows "parse_loop data pos r = Inr r"
  using assms by (subst parse_loop.simps) (auto simp: getitem_def)

lemma parse_loop_step:
  assumes "pos + 2 < length data"
    and "pos + 1 + spec_width (uint (data ! pos)) \<le> length data"
  shows "parse_loop data pos r =
         parse_loop data (pos + 1 + spec_width (uint (data ! pos)))
           (spec_store (data ! pos, take (spec_width (uint (data ! pos))) (drop (pos + 1) data)) r)"
proof -
  consider (t) "uint (data ! pos) = 0x64"
    | (w) "uint (data ! pos) = 0x4A \<or> uint (data ! pos) = 0x4B"
    | (b) "uint (data ! pos) \<noteq> 0x64" "uint (data ! pos) \<noteq> 0x4A" "uint (data ! pos) \<noteq> 0x4B"
    by blast
  then show ?thesis
  proof cases
    case t
    with assms show ?thesis
      by (subst parse_loop.simps)
         (simp add: getitem_def slice_def spec_width_def spec_store_def spec_decode_def)
  next
    case w
    with assms show ?thesis
      by (subst parse_loop.simps)
         (auto simp: getitem_def spec_width_def spec_store_def spec_decode_def or_push_bit_8
                     nth_append)
  next
    case b
    with assms show ?thesis
      by (subst parse_loop.simps)
         (auto simp: getitem_def spec_width_def spec_store_def spec_decode_def)
  qed
qed

lemma spec_width_pos: "1 \<le> spec_width i \<and> spec_width i \<le> 3"
  by (simp add: spec_width_def)


lemma bytes_index_Inl: "bytes_index data x = Inl e \<Longrightarrow> e = ValueError"
  by (induction data arbitrary: e) (auto split: if_splits sum.splits)

lemma bytes_index_absent: "x \<notin> uint ` set data \<Longrightarrow> bytes_index data x = Inl ValueError"
  by (induction data) auto

lemma bytes_index_Inr:
  "bytes_index data x = Inr i \<Longrightarrow>
     i < length data \<and> uint (data ! i) = x \<and> (\<forall>j<i. uint (data ! j) \<noteq> x)"
proof (induction data arbitrary: i)
  case Nil
  then show ?case by simp
next
  case (Cons b bs)
  show ?case
  proof (cases "uint b = x")
    case True
    with Cons.prems show ?thesis by simp
  next
    case False
    with Cons.prems obtain k where k: "bytes_index bs x = Inr k" "i = Suc k"
      by (auto split: sum.splits)
    from Cons.IH [OF k(1)] False k(2) show ?thesis
      by (auto simp: less_Suc_eq_0_disj)
  qed
qed

lemma bytes_index_first:
  "x \<notin> uint ` set pre \<Longrightarrow> uint b = x \<Longrightarrow> bytes_index (pre @ b # rest) x = Inr (length pre)"
  by (induction pre) auto

lemma uint_byte_6: "uint (b :: byte) = 6 \<longleftrightarrow> b = 6"
  by (simp add: word_uint_eq_iff)

lemma marker_absent: "(6 :: byte) \<notin> set data \<Longrightarrow> (6 :: int) \<notin> uint ` set data"
  by (auto simp: uint_byte_6)

lemma parse_loop_frame:
  "drop pos data = spec_frame es @ [c1, c2] \<Longrightarrow>
   list_all (\<lambda>(i, v). length v = spec_width (uint i)) es \<Longrightarrow>
   parse_loop data pos r = Inr (fold spec_store es r)"
proof (induction es arbitrary: pos r)
  case Nil
  then have "length (drop pos data) = 2" by (simp add: spec_frame_def)
  then show ?case by (simp add: parse_loop_stop)
next
  case (Cons e es)
  obtain i v where e: "e = (i, v)" by (cases e)
  let ?w = "spec_width (uint i)"
  from Cons.prems e have len: "length v = ?w"
    and rest: "list_all (\<lambda>(i, v). length v = spec_width (uint i)) es" by auto
  from Cons.prems(1) e have d: "drop pos data = i # v @ spec_frame es @ [c1, c2]"
    by (simp add: spec_frame_def)
  from d have "length (drop pos data) = 1 + ?w + length (spec_frame es) + 2"
    using len by simp
  then have bound: "pos + 1 + ?w + length (spec_frame es) + 2 = length data" by simp
  from bound have lt: "pos < length data" by simp
  from d lt have at: "data ! pos = i"
    by (metis hd_drop_conv_nth list.sel(1))
  from d have d1: "drop (pos + 1) data = v @ spec_frame es @ [c1, c2]"
    by (metis drop_drop add.commute drop0 drop_Suc_Cons plus_1_eq_Suc)
  then have tk: "take ?w (drop (pos + 1) data) = v" using len by simp
  from d1 have d2: "drop (pos + 1 + ?w) data = spec_frame es @ [c1, c2]"
    using len by (metis add.commute append_eq_conv_conj drop_drop)
  have "parse_loop data pos r = parse_loop data (pos + 1 + ?w) (spec_store (i, v) r)"
    using parse_loop_step [of pos data r] bound at tk by simp
  also have "\<dots> = Inr (fold spec_store es (spec_store (i, v) r))"
    by (rule Cons.IH [OF d2 rest])
  finally show ?case using e by simp
qed

lemma byte_at_0x64: "uint (b :: byte) = 100 \<longleftrightarrow> b = 100"
  by (simp add: word_uint_eq_iff)

lemma parse_loop_decomp:
  "\<exists>es rest. drop pos data = spec_frame es @ rest
     \<and> list_all (\<lambda>(i, v). length v = spec_width (uint i)) es
     \<and> parse_loop data pos r = Inr (fold spec_store es r)
     \<and> (length rest \<le> 2 \<or> length rest = 3 \<and> hd rest = 0x64)
     \<and> (\<forall>k<length es. pos + length (spec_frame (take k es)) + 2 < length data)"
proof (induction "length data - pos" arbitrary: pos r rule: less_induct)
  case less
  let ?w = "spec_width (uint (data ! pos))"
  consider (stop) "\<not> pos + 2 < length data"
    | (brk) "pos + 2 < length data" "\<not> pos + 1 + ?w \<le> length data"
    | (step) "pos + 2 < length data" "pos + 1 + ?w \<le> length data"
    by blast
  then show ?case
  proof cases
    case stop
    then have "parse_loop data pos r = Inr (fold spec_store [] r)" "length (drop pos data) \<le> 2"
      by (simp_all add: parse_loop_stop)
    then show ?thesis
      by (intro exI [of _ "[]"] exI [of _ "drop pos data"]) (simp add: spec_frame_def)
  next
    case brk
    from brk spec_width_pos [of "uint (data ! pos)"] have w3: "?w = 3" and len: "pos + 3 = length data"
      by auto
    from w3 have id: "uint (data ! pos) = 0x64"
      by (auto simp: spec_width_def split: if_splits)
    from brk id len have "parse_loop data pos r = Inr (fold spec_store [] r)"
      by (simp add: parse_loop_break)
    moreover from len have "length (drop pos data) = 3" by simp
    moreover from len id have "hd (drop pos data) = 0x64"
      by (simp add: hd_drop_conv_nth byte_at_0x64)
    ultimately show ?thesis
      by (intro exI [of _ "[]"] exI [of _ "drop pos data"]) (simp add: spec_frame_def)
  next
    case step
    let ?e = "(data ! pos, take ?w (drop (pos + 1) data))"
    let ?pos' = "pos + 1 + ?w"
    from step have "length data - ?pos' < length data - pos" by simp
    from less [OF this, of "spec_store ?e r"] obtain es rest where
      d: "drop ?pos' data = spec_frame es @ rest"
      and wf: "list_all (\<lambda>(i, v). length v = spec_width (uint i)) es"
      and res: "parse_loop data ?pos' (spec_store ?e r) = Inr (fold spec_store es (spec_store ?e r))"
      and st: "length rest \<le> 2 \<or> length rest = 3 \<and> hd rest = 0x64"
      and ids: "\<forall>k<length es. ?pos' + length (spec_frame (take k es)) + 2 < length data"
      by blast
    from step have lt: "pos < length data" by simp
    have "drop pos data = data ! pos # drop (pos + 1) data"
      using lt by (simp add: Cons_nth_drop_Suc)
    also have "drop (pos + 1) data = take ?w (drop (pos + 1) data) @ drop ?pos' data"
      by (metis append_take_drop_id drop_drop add.commute)
    finally have d': "drop pos data = spec_frame (?e # es) @ rest"
      using d by (simp add: spec_frame_def)
    from step have lw: "length (take ?w (drop (pos + 1) data)) = ?w" by simp
    have wf': "list_all (\<lambda>(i, v). length v = spec_width (uint i)) (?e # es)"
      using wf lw by simp
    have res': "parse_loop data pos r = Inr (fold spec_store (?e # es) r)"
      using parse_loop_step [OF step, of r] res by simp
    have ids': "\<forall>k<length (?e # es). pos + length (spec_frame (take k (?e # es))) + 2 < length data"
    proof (intro allI impI)
      fix k assume k: "k < length (?e # es)"
      show "pos + length (spec_frame (take k (?e # es))) + 2 < length data"
      proof (cases k)
        case 0
        with step show ?thesis by (simp add: spec_frame_def)
      next
        case (Suc j)
        with k have "j < length es" by simp
        with ids have "?pos' + length (spec_frame (take j es)) + 2 < length data" by blast
        with Suc lw show ?thesis by (simp add: spec_frame_def)
      qed
    qed
    from d' wf' res' st ids' show ?thesis by blast
  qed
qed

lemma uint_byte_le: "uint (b :: byte) \<le> 255"
  using uint_byte_bounds [of b] by simp

lemma spec_store_ok:
  assumes "dict_ok m" "length v = spec_width (uint i)"
  shows "dict_ok (spec_store (i, v) m)"
proof -
  have k: "0 \<le> uint i \<and> uint i \<le> 255" using uint_byte_bounds [of i] by simp
  have "value_ok (uint i) (spec_decode (uint i) v)"
  proof -
    consider (t) "uint i = 0x64" | (w) "uint i = 0x4A \<or> uint i = 0x4B"
      | (b) "uint i \<noteq> 0x64" "uint i \<noteq> 0x4A" "uint i \<noteq> 0x4B" by blast
    then show ?thesis
    proof cases
      case t
      have "list_all (\<lambda>x. 0 \<le> x \<and> x \<le> 255) (map uint v)"
        by (simp add: list_all_iff uint_byte_le)
      with t assms(2) show ?thesis
        by (simp add: value_ok_def spec_decode_def spec_width_def)
    next
      case w
      have "0 \<le> uint (v ! 0) + 256 * uint (v ! 1) \<and> uint (v ! 0) + 256 * uint (v ! 1) \<le> 65535"
        using uint_byte_bounds [of "v ! 0"] uint_byte_bounds [of "v ! 1"] by simp
      with w show ?thesis
        by (auto simp: value_ok_def spec_decode_def)
    next
      case b
      with uint_byte_bounds [of "v ! 0"] show ?thesis
        by (simp add: value_ok_def spec_decode_def)
    qed
  qed
  with k assms(1) show ?thesis
    by (auto simp: dict_ok_def spec_store_def)
qed

lemma fold_spec_store_ok:
  "dict_ok m \<Longrightarrow> list_all (\<lambda>(i, v). length v = spec_width (uint i)) es \<Longrightarrow>
   dict_ok (fold spec_store es m)"
  by (induction es arbitrary: m) (auto simp: spec_store_ok)

text \<open>
  Claim C5. For every input that is empty, shorter than 20 bytes, or without a byte
  0x06, \<open>parse_ventoexpert_response\<close> returns the empty mapping; it does not raise
  (the result is \<open>Inr\<close>).
\<close>

theorem parse_fails_soft:
  assumes "data = [] \<or> length data < 20 \<or> (0x06 :: byte) \<notin> set data"
  shows "parse_ventoexpert_response data = Inr Map.empty"
proof (cases "data = [] \<or> length data < 20")
  case True
  then show ?thesis by (auto simp: parse_ventoexpert_response_def)
next
  case False
  with assms have "(6 :: int) \<notin> uint ` set data" by (simp add: marker_absent)
  then have "bytes_index data 6 = Inl ValueError" by (rule bytes_index_absent)
  then show ?thesis by (simp add: parse_ventoexpert_response_def)
qed

theorem parse_fails_soft_witness:
  "parse_ventoexpert_response [] = Inr Map.empty
   \<and> parse_ventoexpert_response [0xFD, 0xFD, 0x02, 0x06, 0x01, 0x01] = Inr Map.empty
   \<and> parse_ventoexpert_response [0xFD, 0xFD, 2, 16, 65, 66, 67, 68, 69, 70, 71, 72, 73, 74, 75,
        76, 77, 78, 79, 80, 4, 49, 49, 49, 49, 1, 1, 0, 2, 3, 0x5A, 0x01] = Inr Map.empty"
  using parse_fails_soft [of "[]"]
    parse_fails_soft [of "[0xFD, 0xFD, 0x02, 0x06, 0x01, 0x01]"]
    parse_fails_soft [of "[0xFD, 0xFD, 2, 16, 65, 66, 67, 68, 69, 70, 71, 72, 73, 74, 75,
        76, 77, 78, 79, 80, 4, 49, 49, 49, 49, 1, 1, 0, 2, 3, 0x5A, 0x01]"]
  by simp

lemma parse_accepted:
  assumes "20 \<le> length data" "bytes_index data 0x06 = Inr i"
  shows "parse_ventoexpert_response data = parse_loop data (i + 1) Map.empty"
  using assms by (auto simp: parse_ventoexpert_response_def)

lemma parse_total_ok: "\<exists>m. parse_ventoexpert_response data = Inr m \<and> dict_ok m"
proof (cases "data = [] \<or> length data < 20")
  case True
  then show ?thesis by (auto simp: parse_ventoexpert_response_def dict_ok_def)
next
  case False
  show ?thesis
  proof (cases "bytes_index data 0x06")
    case (Inl e)
    then have "e = ValueError" by (rule bytes_index_Inl)
    with Inl False show ?thesis by (simp add: parse_ventoexpert_response_def dict_ok_def)
  next
    case (Inr i)
    obtain es where "list_all (\<lambda>(i, v). length v = spec_width (uint i)) es"
      and "parse_loop data (i + 1) Map.empty = Inr (fold spec_store es Map.empty)"
      using parse_loop_decomp [of "i + 1" data Map.empty] by blast
    moreover have "dict_ok Map.empty" by (simp add: dict_ok_def)
    ultimately show ?thesis
      using Inr False fold_spec_store_ok [of Map.empty es]
      by (simp add: parse_ventoexpert_response_def)
  qed
qed

text \<open>
  Claim C10. For every input, \<open>parse_ventoexpert_response\<close> returns a mapping and
  raises nothing (no read of the checked \<open>getitem\<close> is out of range); every key of
  the mapping is an integer from 0 to 255, and every value is as \<open>value_ok\<close> says: a
  tuple of three byte values under 0x64, an integer from 0 to 65535 under 0x4A and 0x4B,
  an integer from 0 to 255 under any other key.
\<close>

theorem parse_total:
  "\<exists>m. parse_ventoexpert_response data = Inr m
     \<and> (\<forall>k v. m k = Some v \<longrightarrow> 0 \<le> k \<and> k \<le> 255 \<and> value_ok k v)"
  using parse_total_ok [of data] by (simp add: dict_ok_def)

theorem parse_total_witness:
  "\<exists>m. parse_ventoexpert_response
          [0x06, 0x64, 9, 8, 7, 0x4A, 0xFF, 0xFF, 0x4B, 0, 0, 0x06, 0xFF, 0xB7, 0, 1, 2, 0xFF, 0xFF,
           0x10, 0x20] = Inr m
     \<and> m 0x64 = Some (TupleV [9, 8, 7]) \<and> value_ok 0x64 (TupleV [9, 8, 7])
     \<and> m 0x4A = Some (IntV 65535) \<and> value_ok 0x4A (IntV 65535)
     \<and> m 0x06 = Some (IntV 255) \<and> value_ok 0x06 (IntV 255)
     \<and> m 0xFF = Some (IntV 255) \<and> m 256 = None"
  using parse_total [of "[0x06, 0x64, 9, 8, 7, 0x4A, 0xFF, 0xFF, 0x4B, 0, 0, 0x06, 0xFF, 0xB7, 0, 1, 2, 0xFF, 0xFF,
           0x10, 0x20]"]
  by (simp add: parse_ventoexpert_response_def parse_loop.simps getitem_def slice_def)

lemma parse_loop_prefix:
  "drop pos data = spec_frame es @ rest \<Longrightarrow> 2 \<le> length rest \<Longrightarrow>
   list_all (\<lambda>(i, v). length v = spec_width (uint i)) es \<Longrightarrow>
   parse_loop data pos r = parse_loop data (pos + length (spec_frame es)) (fold spec_store es r)"
proof (induction es arbitrary: pos r)
  case Nil
  then show ?case by (simp add: spec_frame_def)
next
  case (Cons e es)
  obtain i v where e: "e = (i, v)" by (cases e)
  let ?w = "spec_width (uint i)"
  from Cons.prems e have len: "length v = ?w"
    and wf: "list_all (\<lambda>(i, v). length v = spec_width (uint i)) es" by auto
  from Cons.prems(1) e have d: "drop pos data = i # v @ spec_frame es @ rest"
    by (simp add: spec_frame_def)
  then have "length (drop pos data) = 1 + ?w + length (spec_frame es) + length rest"
    using len by simp
  then have bound: "pos + 1 + ?w + length (spec_frame es) + length rest = length data" by simp
  with Cons.prems(2) have lt: "pos < length data" by simp
  from d lt have at: "data ! pos = i"
    by (metis hd_drop_conv_nth list.sel(1))
  from d have d1: "drop (pos + 1) data = v @ spec_frame es @ rest"
    by (metis drop_drop add.commute drop0 drop_Suc_Cons plus_1_eq_Suc)
  then have tk: "take ?w (drop (pos + 1) data) = v" using len by simp
  from d1 have d2: "drop (pos + 1 + ?w) data = spec_frame es @ rest"
    using len by (metis add.commute append_eq_conv_conj drop_drop)
  have "parse_loop data pos r = parse_loop data (pos + 1 + ?w) (spec_store (i, v) r)"
    using parse_loop_step [of pos data r] bound Cons.prems(2) at tk by simp
  also have "\<dots> = parse_loop data (pos + 1 + ?w + length (spec_frame es))
                      (fold spec_store es (spec_store (i, v) r))"
    by (rule Cons.IH [OF d2 Cons.prems(2) wf])
  finally show ?case using e len by (simp add: spec_frame_def add.assoc)
qed

text \<open>
  Claim C2. Take any response of at least 20 bytes whose first 0x06 is followed by
  fields written by the width rule (one id byte, then 3 value bytes for id 0x64, 2 for
  0x4A and 0x4B, 1 otherwise) and then at least two more bytes. Parsing starts right
  after the marker and reads exactly these fields, storing for each id the value
  \<open>spec_decode\<close> gives (a 3-tuple for 0x64, the little-endian integer for 0x4A and
  0x4B, the byte otherwise), and goes on from the position after them; when exactly two
  bytes follow the fields, the result is the mapping of these fields. The instance
  below decodes the bytes 01 02 03 under 0x64 to the tuple (1, 2, 3) and the bytes
  2C 01 under 0x4A and 0x4B to 300.
\<close>

theorem parse_reads_fields:
  assumes "data = pre @ [0x06] @ spec_frame es @ rest"
    and "(0x06 :: byte) \<notin> set pre"
    and "20 \<le> length data"
    and "list_all (\<lambda>(i, v). length v = spec_width (uint i)) es"
    and "2 \<le> length rest"
  shows "parse_ventoexpert_response data =
           parse_loop data (length pre + 1 + length (spec_frame es)) (fold spec_store es Map.empty)
         \<and> (length rest = 2 \<longrightarrow>
              parse_ventoexpert_response data = Inr (fold spec_store es Map.empty))"
proof -
  have idx: "bytes_index data 0x06 = Inr (length pre)"
    using assms(1,2) bytes_index_first [of 6 pre 6 "spec_frame es @ rest"]
    by (simp add: marker_absent)
  have d: "drop (length pre + 1) data = spec_frame es @ rest"
    using assms(1) by simp
  have "parse_ventoexpert_response data = parse_loop data (length pre + 1) Map.empty"
    using parse_accepted [OF assms(3) idx] .
  also have "\<dots> = parse_loop data (length pre + 1 + length (spec_frame es))
                      (fold spec_store es Map.empty)"
    by (rule parse_loop_prefix [OF d assms(5,4)])
  finally have first: "parse_ventoexpert_response data =
      parse_loop data (length pre + 1 + length (spec_frame es)) (fold spec_store es Map.empty)" .
  moreover have "length rest = 2 \<Longrightarrow>
      parse_loop data (length pre + 1 + length (spec_frame es)) (fold spec_store es Map.empty)
        = Inr (fold spec_store es Map.empty)"
    using assms(1) by (intro parse_loop_stop) simp
  ultimately show ?thesis by simp
qed

theorem parse_reads_fields_witness:
  "parse_ventoexpert_response
     ([0xFD, 0xFD, 0x02, 0x10, 0x41, 0x42, 0x43, 0x44, 0x04, 0x31, 0x31, 0x31, 0x31] @ [0x06]
        @ [0x64, 0x01, 0x02, 0x03, 0x4A, 0x2C, 0x01, 0x4B, 0x2C, 0x01, 0x01, 0x05] @ [0x99, 0x02])
   = Inr [0x64 \<mapsto> TupleV [1, 2, 3], 0x4A \<mapsto> IntV 300, 0x4B \<mapsto> IntV 300, 0x01 \<mapsto> IntV 5]"
  using parse_reads_fields [of
      "[0xFD, 0xFD, 0x02, 0x10, 0x41, 0x42, 0x43, 0x44, 0x04, 0x31, 0x31, 0x31, 0x31] @ [0x06]
        @ [0x64, 0x01, 0x02, 0x03, 0x4A, 0x2C, 0x01, 0x4B, 0x2C, 0x01, 0x01, 0x05] @ [0x99, 0x02]"
      "[0xFD, 0xFD, 0x02, 0x10, 0x41, 0x42, 0x43, 0x44, 0x04, 0x31, 0x31, 0x31, 0x31]"
      "[(0x64, [0x01, 0x02, 0x03]), (0x4A, [0x2C, 0x01]), (0x4B, [0x2C, 0x01]), (0x01, [0x05])]"
      "[0x99, 0x02]"]
  by (simp add: spec_frame_def spec_width_def spec_store_def spec_decode_def parse_loop_stop)

lemma fold_spec_store_other:
  "i \<notin> fst ` set es \<Longrightarrow> fold spec_store es m (uint i) = m (uint i)"
proof (induction es arbitrary: m)
  case Nil
  then show ?case by simp
next
  case (Cons e es)
  obtain j v where e: "e = (j, v)" by (cases e)
  with Cons.prems have ne: "j \<noteq> i" and rest: "i \<notin> fst ` set es" by auto
  have "fold spec_store (e # es) m (uint i) = fold spec_store es (spec_store e m) (uint i)"
    by simp
  also have "\<dots> = spec_store e m (uint i)"
    by (rule Cons.IH [OF rest])
  also have "\<dots> = m (uint i)"
    using ne e by (simp add: spec_store_def word_uint_eq_iff)
  finally show ?case .
qed

lemma fold_spec_store_last:
  "i \<notin> fst ` set es3 \<Longrightarrow>
   fold spec_store (es @ (i, v) # es3) m (uint i) = Some (spec_decode (uint i) v)"
  by (simp add: fold_spec_store_other) (simp add: spec_store_def)

text \<open>
  Claim C7. In a response frame whose fields hold the id \<open>i\<close> twice (and not again
  after the second time), the mapping returned has under \<open>i\<close> the value decoded from
  the later field alone: the earlier one is overwritten.
\<close>

theorem parse_last_write_wins:
  assumes "data = pre @ [0x06] @ spec_frame (es1 @ [(i, v1)] @ es2 @ [(i, v2)] @ es3) @ [c1, c2]"
    and "(0x06 :: byte) \<notin> set pre"
    and "20 \<le> length data"
    and "list_all (\<lambda>(i, v). length v = spec_width (uint i)) (es1 @ [(i, v1)] @ es2 @ [(i, v2)] @ es3)"
    and "i \<notin> fst ` set es3"
  shows "\<exists>m. parse_ventoexpert_response data = Inr m
           \<and> m (uint i) = Some (spec_decode (uint i) v2)"
proof -
  let ?es = "es1 @ [(i, v1)] @ es2 @ [(i, v2)] @ es3"
  have idx: "bytes_index data 0x06 = Inr (length pre)"
    using assms(1,2) bytes_index_first [of 6 pre 6 "spec_frame ?es @ [c1, c2]"]
    by (simp add: marker_absent)
  have d: "drop (length pre + 1) data = spec_frame ?es @ [c1, c2]"
    using assms(1) by simp
  have "parse_ventoexpert_response data = parse_loop data (length pre + 1) Map.empty"
    using parse_accepted [OF assms(3) idx] .
  also have "\<dots> = Inr (fold spec_store ?es Map.empty)"
    by (rule parse_loop_frame [OF d assms(4)])
  finally have "parse_ventoexpert_response data = Inr (fold spec_store ?es Map.empty)" .
  moreover have "fold spec_store ?es Map.empty (uint i) = Some (spec_decode (uint i) v2)"
    using fold_spec_store_last [OF assms(5), of "es1 @ [(i, v1)] @ es2" v2 Map.empty] by simp
  ultimately show ?thesis by simp
qed

theorem parse_last_write_wins_witness:
  "\<exists>m. parse_ventoexpert_response
          ([0xFD, 0xFD, 0x02, 0x10, 0x41, 0x42, 0x43, 0x44, 0x04, 0x31, 0x31, 0x31, 0x31] @ [0x06]
             @ [0x01, 0x00, 0x4A, 0x2C, 0x01, 0x02, 0x03, 0x4A, 0x10, 0x00, 0xB7, 0x01] @ [0x99, 0x02])
          = Inr m
      \<and> m 0x4A = Some (IntV 16)"
  using parse_last_write_wins [of
      "[0xFD, 0xFD, 0x02, 0x10, 0x41, 0x42, 0x43, 0x44, 0x04, 0x31, 0x31, 0x31, 0x31] @ [0x06]
             @ [0x01, 0x00, 0x4A, 0x2C, 0x01, 0x02, 0x03, 0x4A, 0x10, 0x00, 0xB7, 0x01] @ [0x99, 0x02]"
      "[0xFD, 0xFD, 0x02, 0x10, 0x41, 0x42, 0x43, 0x44, 0x04, 0x31, 0x31, 0x31, 0x31]"
      "[(0x01, [0x00])]" "0x4A" "[0x2C, 0x01]" "[(0x02, [0x03])]" "[0x10, 0x00]" "[(0xB7, [0x01])]"
      "0x99" "0x02"]
  by (simp add: spec_frame_def spec_width_def spec_decode_def)

text \<open>
  Claim C8, as stated, fails: in a 20-byte response with id 0x4A at index 17, both bytes
  of the trailing 2-byte region are decoded as its value (300, and 557 when only these
  two bytes change); with a 1-byte id at index 17 the first trailing byte is its value.
\<close>

theorem parse_value_from_trailer:
  "parse_ventoexpert_response [0x06, 0, 0, 0, 0, 0, 0, 0, 0, 0, 0, 0, 0, 0, 0, 0, 0, 0x4A, 0x2C, 0x01]
     = Inr [0 \<mapsto> IntV 0, 0x4A \<mapsto> IntV 300]
   \<and> parse_ventoexpert_response [0x06, 0, 0, 0, 0, 0, 0, 0, 0, 0, 0, 0, 0, 0, 0, 0, 0, 0x4A, 0x2D, 0x02]
     = Inr [0 \<mapsto> IntV 0, 0x4A \<mapsto> IntV 557]
   \<and> parse_ventoexpert_response [0x06, 0, 0, 0, 0, 0, 0, 0, 0, 0, 0, 0, 0, 0, 0, 0, 0, 0x07, 0x2C, 0x01]
     = Inr [0 \<mapsto> IntV 0, 0x07 \<mapsto> IntV 44]"
  by (simp add: parse_ventoexpert_response_def parse_loop.simps getitem_def slice_def)

text \<open>
  Claim C8, amended. For every accepted response, the bytes after the first 0x06 split
  into the fields the loop consumed (each with the width of its id) and a rest, and
  the result is the mapping of those fields. The loop stops when at most two bytes are
  left, or when three are left and the first is the id 0x64, whose 3-byte value would run
  past the end of the input. Every id consumed has more than two bytes from itself to
  the end of the input, so no parameter id is taken from the trailing two bytes, and every
  field lies within the input.
\<close>

theorem parse_stops:
  assumes "data = pre @ [0x06] @ body"
    and "(0x06 :: byte) \<notin> set pre"
    and "20 \<le> length data"
  shows "\<exists>es rest. body = spec_frame es @ rest
           \<and> list_all (\<lambda>(i, v). length v = spec_width (uint i)) es
           \<and> parse_ventoexpert_response data = Inr (fold spec_store es Map.empty)
           \<and> (length rest \<le> 2 \<or> length rest = 3 \<and> hd rest = 0x64)
           \<and> (\<forall>k<length es. length (spec_frame (take k es)) + 2 < length body)"
proof -
  have idx: "bytes_index data 0x06 = Inr (length pre)"
    using assms(1,2) bytes_index_first [of 6 pre 6 body] by (simp add: marker_absent)
  have d: "drop (length pre + 1) data = body" using assms(1) by simp
  have len: "length data = length pre + 1 + length body" using assms(1) by simp
  obtain es rest where
    "drop (length pre + 1) data = spec_frame es @ rest"
    "list_all (\<lambda>(i, v). length v = spec_width (uint i)) es"
    "parse_loop data (length pre + 1) Map.empty = Inr (fold spec_store es Map.empty)"
    "length rest \<le> 2 \<or> length rest = 3 \<and> hd rest = 0x64"
    "\<forall>k<length es. length pre + 1 + length (spec_frame (take k es)) + 2 < length data"
    using parse_loop_decomp [of "length pre + 1" data Map.empty] by blast
  then show ?thesis
    using parse_accepted [OF assms(3) idx] d len
    by (intro exI [of _ es] exI [of _ rest]) simp
qed

theorem parse_stops_witness:
  "\<exists>es rest. [0, 0, 0, 0, 0, 0, 0, 0, 0, 0, 0, 0, 0, 0, 0x01, 0x02, 0x64, 0x2C, 0x01] = spec_frame es @ rest
      \<and> parse_ventoexpert_response
          ([0xFD, 0xFD] @ [0x06] @ [0, 0, 0, 0, 0, 0, 0, 0, 0, 0, 0, 0, 0, 0, 0x01, 0x02, 0x64, 0x2C, 0x01])
          = Inr (fold spec_store es Map.empty)
      \<and> (length rest \<le> 2 \<or> length rest = 3 \<and> hd rest = 0x64)"
  using parse_stops [of
      "[0xFD, 0xFD] @ [0x06] @ [0, 0, 0, 0, 0, 0, 0, 0, 0, 0, 0, 0, 0, 0, 0x01, 0x02, 0x64, 0x2C, 0x01]"
      "[0xFD, 0xFD]" "[0, 0, 0, 0, 0, 0, 0, 0, 0, 0, 0, 0, 0, 0, 0x01, 0x02, 0x64, 0x2C, 0x01]"]
  by auto

section \<open>Properties of the request builder\<close>

lemma and_255: "(k :: int) AND 255 = k mod 256"
  using take_bit_eq_mask [of 8 k] by (simp add: take_bit_eq_mod mask_eq_exp_minus_1)

lemma and_65535: "(k :: int) AND 65535 = k mod 65536"
  using take_bit_eq_mask [of 16 k] by (simp add: take_bit_eq_mod mask_eq_exp_minus_1)

lemma drop_bit_8: "drop_bit 8 (k :: int) = k div 256"
  by (simp add: drop_bit_eq_div)

lemma py_bytes_1: "0 \<le> a \<Longrightarrow> a < 256 \<Longrightarrow> py_bytes [a] = Inr [word_of_int a]"
  by (simp add: py_bytes_def)

lemma py_bytes_2:
  "0 \<le> a \<Longrightarrow> a < 256 \<Longrightarrow> 0 \<le> b \<Longrightarrow> b < 256 \<Longrightarrow>
   py_bytes [a, b] = Inr [word_of_int a, word_of_int b]"
  by (simp add: py_bytes_def)

lemma data_block_loop_eq:
  "data_block_loop params acc = Inr (acc @ concat (map spec_param_entry params))"
proof (induction params arbitrary: acc)
  case Nil
  then show ?case by simp
next
  case (Cons p ps)
  have lo: "py_bytes [p mod 256] = Inr [word_of_int (p mod 256)]"
    by (rule py_bytes_1) simp_all
  have hi: "py_bytes [255, p div 256 mod 256] = Inr [0xFF, word_of_int (p div 256 mod 256)]"
    using py_bytes_2 [of 255 "p div 256 mod 256"] by simp
  have pos: "0 < p div 256 mod 256 \<longleftrightarrow> p div 256 mod 256 \<noteq> 0"
    using pos_mod_sign [of 256 "p div 256"] by linarith
  show ?case
    by (simp add: and_255 drop_bit_8 lo hi pos Cons.IH spec_param_entry_def)
qed

lemma calc_checksum_eq: "calc_checksum body = Inr (spec_checksum body)"
proof -
  let ?c = "sum_list (map uint body) mod 65536"
  have c: "0 \<le> ?c" "?c < 65536" by simp_all
  then have hi: "0 \<le> ?c div 256" "?c div 256 < 256" by simp_all
  then have "?c div 256 mod 256 = ?c div 256" by simp
  moreover have "py_bytes [?c mod 256, ?c div 256] = Inr [word_of_int (?c mod 256), word_of_int (?c div 256)]"
    using py_bytes_2 [of "?c mod 256" "?c div 256"] hi by simp
  ultimately show ?thesis
    by (simp add: calc_checksum_def spec_checksum_def and_255 and_65535 drop_bit_8 Let_def)
qed

lemma spec_checksum_value:
  "length (spec_checksum body) = 2
   \<and> uint (spec_checksum body ! 0) + 256 * uint (spec_checksum body ! 1)
       = sum_list (map uint body) mod 65536"
proof -
  let ?c = "sum_list (map uint body) mod 65536"
  have c: "0 \<le> ?c" "?c < 65536" by simp_all
  then have hi: "0 \<le> ?c div 256" "?c div 256 < 256" by simp_all
  have "uint (word_of_int (?c mod 256) :: byte) = ?c mod 256"
    by (simp add: uint_word_of_int)
  moreover have "uint (word_of_int (?c div 256) :: byte) = ?c div 256"
    using hi by (simp add: uint_word_of_int)
  ultimately show ?thesis
    by (simp add: spec_checksum_def Let_def)
qed

lemma encode_ascii_ok:
  "list_all (\<lambda>c. (of_char c :: nat) < 128) s \<Longrightarrow> encode_ascii s = Inr (map of_char s)"
  by (simp add: encode_ascii_def)

lemma build_read_packet_ascii:
  assumes "list_all (\<lambda>c. (of_char c :: nat) < 128) device_id"
    and "list_all (\<lambda>c. (of_char c :: nat) < 128) password"
  shows "build_read_packet device_id password params =
     Inr ([0xFD, 0xFD]
          @ ([0x02, 0x10] @ map of_char device_id @ replicate (16 - length device_id) 0
             @ [0x04] @ map of_char password @ replicate (4 - length password) 0
             @ [0x01] @ concat (map spec_param_entry params))
          @ spec_checksum
             ([0x02, 0x10] @ map of_char device_id @ replicate (16 - length device_id) 0
              @ [0x04] @ map of_char password @ replicate (4 - length password) 0
              @ [0x01] @ concat (map spec_param_entry params)))"
  using assms
  by (simp add: build_read_packet_def encode_ascii_ok ljust_def data_block_loop_eq
                calc_checksum_eq)

lemma replicate_numeral: "replicate (numeral k) x = x # replicate (pred_numeral k) x"
  by (simp add: numeral_eq_Suc)

lemma build_read_packet_Inr:
  "build_read_packet device_id password params = Inr out \<Longrightarrow>
   list_all (\<lambda>c. (of_char c :: nat) < 128) device_id
   \<and> list_all (\<lambda>c. (of_char c :: nat) < 128) password"
  by (auto simp: build_read_packet_def encode_ascii_def split: if_splits)

text \<open>
  Claim C1. For every ASCII device id of at most 16 bytes, every ASCII password of at
  most 4 bytes and every parameter list (the non-empty ones included),
  \<open>build_read_packet\<close> returns FD FD, 02, 10, the device id zero-padded to 16 bytes,
  04, the password zero-padded to 4 bytes, 01, the parameter block and a 2-byte trailer;
  its length is 2+1+1+16+1+4+1+len(block)+2, and the trailer read low byte first is
  the sum of the bytes from index 2 to the end of the parameter block, modulo 65536.
\<close>

theorem build_read_packet_frame:
  assumes "list_all (\<lambda>c. (of_char c :: nat) < 128) device_id" and "length device_id \<le> 16"
    and "list_all (\<lambda>c. (of_char c :: nat) < 128) password" and "length password \<le> 4"
  shows "\<exists>out ck. build_read_packet device_id password params = Inr out
     \<and> out = [0xFD, 0xFD] @ [0x02] @ [0x10]
             @ (map of_char device_id @ replicate (16 - length device_id) 0)
             @ [0x04] @ (map of_char password @ replicate (4 - length password) 0)
             @ [0x01] @ concat (map spec_param_entry params) @ ck
     \<and> length ck = 2
     \<and> length out = 2 + 1 + 1 + 16 + 1 + 4 + 1 + length (concat (map spec_param_entry params)) + 2
     \<and> uint (ck ! 0) + 256 * uint (ck ! 1)
         = sum_list (map uint (take (length out - 4) (drop 2 out))) mod 65536"
proof -
  let ?body = "[0x02, 0x10] @ map of_char device_id @ replicate (16 - length device_id) 0
             @ [0x04] @ map of_char password @ replicate (4 - length password) 0
             @ [0x01] @ concat (map spec_param_entry params) :: bytes"
  let ?ck = "spec_checksum ?body"
  let ?out = "[0xFD, 0xFD] @ ?body @ ?ck"
  have b: "build_read_packet device_id password params = Inr ?out"
    by (rule build_read_packet_ascii [OF assms(1,3)])
  have ck: "length ?ck = 2"
    and v: "uint (?ck ! 0) + 256 * uint (?ck ! 1) = sum_list (map uint ?body) mod 65536"
    using spec_checksum_value [of ?body] by blast+
  have lb: "length ?body = 24 + length (concat (map spec_param_entry params))"
    using assms(2,4) by simp
  then have lo: "length ?out = 2 + 1 + 1 + 16 + 1 + 4 + 1 + length (concat (map spec_param_entry params)) + 2"
    using ck by simp
  have "drop 2 ?out = ?body @ ?ck" by simp
  moreover have "length ?out - 4 = length ?body" using lo lb by simp
  ultimately have tk: "take (length ?out - 4) (drop 2 ?out) = ?body"
    by (metis append_eq_conv_conj)
  have sum: "uint (?ck ! 0) + 256 * uint (?ck ! 1)
         = sum_list (map uint (take (length ?out - 4) (drop 2 ?out))) mod 65536"
    by (simp only: tk v)
  have shape: "?out = [0xFD, 0xFD] @ [0x02] @ [0x10]
             @ (map of_char device_id @ replicate (16 - length device_id) 0)
             @ [0x04] @ (map of_char password @ replicate (4 - length password) 0)
             @ [0x01] @ concat (map spec_param_entry params) @ ?ck"
    by simp
  from b shape ck lo sum show ?thesis by blast
qed

theorem build_read_packet_frame_witness:
  "\<exists>out. build_read_packet ''DEFAULT_DEVICEID'' ''1111'' [0x01, 0x02, 0x06, 0x19, 0x25, 0x4A, 0x4B, 0xB7]
           = Inr out
     \<and> take 34 out = [0xFD, 0xFD, 0x02, 0x10,
           0x44, 0x45, 0x46, 0x41, 0x55, 0x4C, 0x54, 0x5F, 0x44, 0x45, 0x56, 0x49, 0x43, 0x45, 0x49, 0x44,
           0x04, 0x31, 0x31, 0x31, 0x31, 0x01, 0x01, 0x02, 0x06, 0x19, 0x25, 0x4A, 0x4B, 0xB7]
     \<and> length out = 36
     \<and> uint (out ! 34) + 256 * uint (out ! 35) = 1807"
  using build_read_packet_frame [of "''DEFAULT_DEVICEID''" "''1111''"
          "[0x01, 0x02, 0x06, 0x19, 0x25, 0x4A, 0x4B, 0xB7]"]
  by (auto simp: spec_param_entry_def)

text \<open>
  Claim C6. The parameter block built by the loop of \<open>build_read_packet\<close> is, in
  list order, the entry of each parameter id: FF, high byte, low byte when the high byte
  is not zero, the low byte alone when it is zero; and this block is what every frame
  returned holds between the function byte 01 and the 2-byte trailer.
\<close>

theorem build_param_block:
  "data_block_loop params [] = Inr (concat (map spec_param_entry params))
   \<and> (\<forall>out. build_read_packet device_id password params = Inr out \<longrightarrow>
         (\<exists>ck. length ck = 2
            \<and> out = [0xFD, 0xFD, 0x02, 0x10] @ ljust (map of_char device_id) 16 0
                    @ [0x04] @ ljust (map of_char password) 4 0 @ [0x01]
                    @ concat (map spec_param_entry params) @ ck))"
proof (intro conjI allI impI)
  show "data_block_loop params [] = Inr (concat (map spec_param_entry params))"
    by (simp add: data_block_loop_eq)
next
  fix out assume out: "build_read_packet device_id password params = Inr out"
  let ?body = "[0x02, 0x10] @ map of_char device_id @ replicate (16 - length device_id) 0
             @ [0x04] @ map of_char password @ replicate (4 - length password) 0
             @ [0x01] @ concat (map spec_param_entry params) :: bytes"
  from build_read_packet_Inr [OF out]
  have "build_read_packet device_id password params = Inr ([0xFD, 0xFD] @ ?body @ spec_checksum ?body)"
    by (intro build_read_packet_ascii) simp_all
  with out have "out = [0xFD, 0xFD] @ ?body @ spec_checksum ?body" by simp
  moreover have "length (spec_checksum ?body) = 2"
    using spec_checksum_value [of ?body] by blast
  ultimately show "\<exists>ck. length ck = 2
            \<and> out = [0xFD, 0xFD, 0x02, 0x10] @ ljust (map of_char device_id) 16 0
                    @ [0x04] @ ljust (map of_char password) 4 0 @ [0x01]
                    @ concat (map spec_param_entry params) @ ck"
    by (intro exI [of _ "spec_checksum ?body"]) (simp add: ljust_def)
qed

theorem build_param_block_witness:
  "data_block_loop [0x0001, 0x0302, 0x00B7, 0x0100] [] = Inr [0x01, 0xFF, 0x03, 0x02, 0xB7, 0xFF, 0x01, 0x00]
   \<and> build_read_packet ''DEFAULT_DEVICEID'' ''1111'' [0x0001, 0x0302, 0x00B7, 0x0100]
       = Inr ([0xFD, 0xFD, 0x02, 0x10,
           0x44, 0x45, 0x46, 0x41, 0x55, 0x4C, 0x54, 0x5F, 0x44, 0x45, 0x56, 0x49, 0x43, 0x45, 0x49, 0x44,
           0x04, 0x31, 0x31, 0x31, 0x31, 0x01]
           @ [0x01, 0xFF, 0x03, 0x02, 0xB7, 0xFF, 0x01, 0x00] @ [0x38, 0x08])"
  using build_param_block [of "[0x0001, 0x0302, 0x00B7, 0x0100]" "''DEFAULT_DEVICEID''" "''1111''"]
  by (simp add: spec_param_entry_def build_read_packet_def encode_ascii_def ljust_def
                calc_checksum_def py_bytes_def)

text \<open>
  Claim C9, as stated, fails: a 5-character password is emitted whole (5 bytes after the
  size byte 04, a 30-byte frame for one 1-byte parameter), and a 17-character device id
  is emitted whole; nothing is truncated.
\<close>

theorem build_emits_long_password:
  "build_read_packet ''A'' ''12345'' [0x02]
     = Inr [0xFD, 0xFD, 0x02, 0x10,
            0x41, 0, 0, 0, 0, 0, 0, 0, 0, 0, 0, 0, 0, 0, 0, 0,
            0x04, 0x31, 0x32, 0x33, 0x34, 0x35, 0x01, 0x02, 0x59, 0x01]
   \<and> build_read_packet ''ABCDEFGHIJKLMNOPQ'' ''1'' [0x02]
     = Inr [0xFD, 0xFD, 0x02, 0x10,
            0x41, 0x42, 0x43, 0x44, 0x45, 0x46, 0x47, 0x48, 0x49, 0x4A, 0x4B, 0x4C, 0x4D, 0x4E,
            0x4F, 0x50, 0x51,
            0x04, 0x31, 0, 0, 0, 0x01, 0x02, 0x23, 0x05]"
  by (simp add: build_read_packet_def encode_ascii_def ljust_def calc_checksum_def py_bytes_def
                replicate_numeral)

text \<open>
  Claim C9, amended. \<open>build_read_packet\<close> is a function of its three arguments
  and touches no state. For ASCII inputs of any length it returns a frame and raises
  nothing; a device id shorter than 16 or a password shorter than 4 is zero-padded, and a
  longer one is emitted whole, neither truncated nor padded.
\<close>

theorem build_no_error_no_truncation:
  assumes "list_all (\<lambda>c. (of_char c :: nat) < 128) device_id"
    and "list_all (\<lambda>c. (of_char c :: nat) < 128) password"
  shows "\<exists>ck. length ck = 2
     \<and> build_read_packet device_id password params
         = Inr ([0xFD, 0xFD, 0x02, 0x10]
                @ map of_char device_id @ replicate (16 - length device_id) 0
                @ [0x04] @ map of_char password @ replicate (4 - length password) 0
                @ [0x01] @ concat (map spec_param_entry params) @ ck)"
proof -
  let ?body = "[0x02, 0x10] @ map of_char device_id @ replicate (16 - length device_id) 0
             @ [0x04] @ map of_char password @ replicate (4 - length password) 0
             @ [0x01] @ concat (map spec_param_entry params) :: bytes"
  have "length (spec_checksum ?body) = 2"
    using spec_checksum_value [of ?body] by blast
  then show ?thesis
    using build_read_packet_ascii [OF assms, of params]
    by (intro exI [of _ "spec_checksum ?body"]) simp
qed

theorem build_no_error_no_truncation_witness:
  "\<exists>ck. length ck = 2
     \<and> build_read_packet ''ABCDEFGHIJKLMNOPQ'' ''12345'' [0x4A]
         = Inr ([0xFD, 0xFD, 0x02, 0x10,
            0x41, 0x42, 0x43, 0x44, 0x45, 0x46, 0x47, 0x48, 0x49, 0x4A, 0x4B, 0x4C, 0x4D, 0x4E,
            0x4F, 0x50, 0x51,
            0x04, 0x31, 0x32, 0x33, 0x34, 0x35, 0x01, 0x4A] @ ck)"
  using build_no_error_no_truncation [of "''ABCDEFGHIJKLMNOPQ''" "''12345''" "[0x4A]"]
  by (simp add: spec_param_entry_def)

section \<open>Properties of the retry orchestrator\<close>

declare udp_request_loop.simps [simp del]

lemma send_udp_eq:
  "send_udp net host port packet s =
     (reply net host port packet (calls s),
      s\<lparr>calls := calls s + 1, events := events s @ [SendUdp]\<rparr>)"
  by (simp add: send_udp_def reply_def Let_def split: option.splits)

lemma udp_request_loop_success:
  "(\<forall>j<k. reply net host port packet (calls s + j) = []) \<Longrightarrow>
   reply net host port packet (calls s + k) \<noteq> [] \<Longrightarrow>
   attempt + int k < retries \<Longrightarrow>
   udp_request_loop net host port packet retries attempt s =
     (reply net host port packet (calls s + k),
      s\<lparr>calls := calls s + k + 1,
        events := events s @ concat (replicate k [SendUdp, Sleep (1 / 2)]) @ [SendUdp]\<rparr>)"
proof (induction k arbitrary: attempt s)
  case 0
  then show ?case
    by (subst udp_request_loop.simps) (simp add: send_udp_eq)
next
  case (Suc k)
  let ?s' = "s\<lparr>calls := calls s + 1, events := events s @ [SendUdp, Sleep (1 / 2)]\<rparr>"
  from Suc.prems(1) have first: "reply net host port packet (calls s) = []"
    by (metis add.right_neutral zero_less_Suc)
  have "\<forall>j<k. reply net host port packet (calls ?s' + j) = []"
  proof (intro allI impI)
    fix j assume "j < k"
    then have "Suc j < Suc k" by simp
    with Suc.prems(1) have "reply net host port packet (calls s + Suc j) = []" by blast
    then show "reply net host port packet (calls ?s' + j) = []" by simp
  qed
  moreover from Suc.prems(2) have "reply net host port packet (calls ?s' + k) \<noteq> []" by simp
  moreover from Suc.prems(3) have "(attempt + 1) + int k < retries" by simp
  ultimately have "udp_request_loop net host port packet retries (attempt + 1) ?s' =
     (reply net host port packet (calls ?s' + k),
      ?s'\<lparr>calls := calls ?s' + k + 1,
        events := events ?s' @ concat (replicate k [SendUdp, Sleep (1 / 2)]) @ [SendUdp]\<rparr>)"
    by (rule Suc.IH)
  moreover from Suc.prems(3) have "attempt < retries" by simp
  ultimately show ?case using first
    by (subst udp_request_loop.simps) (simp add: send_udp_eq)
qed

lemma udp_request_loop_exhausted:
  "(\<forall>j<n. reply net host port packet (calls s + j) = []) \<Longrightarrow>
   attempt + int n = retries \<Longrightarrow>
   udp_request_loop net host port packet retries attempt s =
     ([], s\<lparr>calls := calls s + n,
            events := events s @ concat (replicate n [SendUdp, Sleep (1 / 2)])\<rparr>)"
proof (induction n arbitrary: attempt s)
  case 0
  then show ?case
    by (subst udp_request_loop.simps) simp
next
  case (Suc n)
  let ?s' = "s\<lparr>calls := calls s + 1, events := events s @ [SendUdp, Sleep (1 / 2)]\<rparr>"
  from Suc.prems(1) have first: "reply net host port packet (calls s) = []"
    by (metis add.right_neutral zero_less_Suc)
  have "\<forall>j<n. reply net host port packet (calls ?s' + j) = []"
  proof (intro allI impI)
    fix j assume "j < n"
    then have "Suc j < Suc n" by simp
    with Suc.prems(1) have "reply net host port packet (calls s + Suc j) = []" by blast
    then show "reply net host port packet (calls ?s' + j) = []" by simp
  qed
  moreover from Suc.prems(2) have "(attempt + 1) + int n = retries" by simp
  ultimately have "udp_request_loop net host port packet retries (attempt + 1) ?s' =
     ([], ?s'\<lparr>calls := calls ?s' + n,
            events := events ?s' @ concat (replicate n [SendUdp, Sleep (1 / 2)])\<rparr>)"
    by (rule Suc.IH)
  moreover from Suc.prems(2) have "attempt < retries" by simp
  ultimately show ?case using first
    by (subst udp_request_loop.simps) (simp add: send_udp_eq)
qed

lemma udp_request_loop_none:
  "retries \<le> attempt \<Longrightarrow> udp_request_loop net host port packet retries attempt s = ([], s)"
  by (subst udp_request_loop.simps) simp

text \<open>
  Claim C3, as stated, fails: with 3 retries and a transport that never answers,
  \<open>udp_request\<close> makes 3 attempts and sleeps 3 times, once after each of them, the
  last included; not 2 times.
\<close>

theorem udp_request_three_delays:
  "udp_request (\<lambda>host port packet k. None) ''192.168.1.10'' 4000 [0xFD, 0xFD] 3
      \<lparr>calls = 0, events = []\<rparr>
     = ([], \<lparr>calls = 3,
             events = [SendUdp, Sleep (1 / 2), SendUdp, Sleep (1 / 2), SendUdp, Sleep (1 / 2)]\<rparr>)
   \<and> length (filter (\<lambda>e. e = Sleep (1 / 2))
         (events (snd (udp_request (\<lambda>host port packet k. None) ''192.168.1.10'' 4000 [0xFD, 0xFD] 3
            \<lparr>calls = 0, events = []\<rparr>)))) = 3"
  by (simp add: udp_request_def udp_request_loop.simps send_udp_def)

text \<open>
  Claim C3, amended. If the transport yields data for the first time on attempt
  \<open>k + 1\<close> (with \<open>k\<close> below the retry bound), \<open>udp_request\<close> returns that data
  after \<open>k + 1\<close> attempts and \<open>k\<close> delays of 0.5 s and makes no further attempt. If
  every attempt yields no data, it makes exactly \<open>retries\<close> attempts, each followed by a
  delay of 0.5 s (\<open>retries\<close> delays), and returns the empty bytes; nothing else is
  ever returned on failure.
\<close>

theorem udp_request_retries:
  "(\<forall>k. int k < retries
        \<and> (\<forall>j<k. reply net host port packet (calls s + j) = [])
        \<and> reply net host port packet (calls s + k) \<noteq> [] \<longrightarrow>
      udp_request net host port packet retries s =
        (reply net host port packet (calls s + k),
         s\<lparr>calls := calls s + k + 1,
           events := events s @ concat (replicate k [SendUdp, Sleep (1 / 2)]) @ [SendUdp]\<rparr>))
   \<and> ((\<forall>j<nat retries. reply net host port packet (calls s + j) = []) \<longrightarrow>
      udp_request net host port packet retries s =
        ([], s\<lparr>calls := calls s + nat retries,
               events := events s @ concat (replicate (nat retries) [SendUdp, Sleep (1 / 2)])\<rparr>))"
proof (intro conjI allI impI)
  fix k
  assume "int k < retries
        \<and> (\<forall>j<k. reply net host port packet (calls s + j) = [])
        \<and> reply net host port packet (calls s + k) \<noteq> []"
  then show "udp_request net host port packet retries s =
        (reply net host port packet (calls s + k),
         s\<lparr>calls := calls s + k + 1,
           events := events s @ concat (replicate k [SendUdp, Sleep (1 / 2)]) @ [SendUdp]\<rparr>)"
    unfolding udp_request_def by (intro udp_request_loop_success) simp_all
next
  assume all: "\<forall>j<nat retries. reply net host port packet (calls s + j) = []"
  show "udp_request net host port packet retries s =
        ([], s\<lparr>calls := calls s + nat retries,
               events := events s @ concat (replicate (nat retries) [SendUdp, Sleep (1 / 2)])\<rparr>)"
  proof (cases "0 \<le> retries")
    case True
    then have "0 + int (nat retries) = retries" by simp
    from udp_request_loop_exhausted [OF all this] show ?thesis
      by (simp add: udp_request_def)
  next
    case False
    then show ?thesis
      by (simp add: udp_request_def udp_request_loop_none)
  qed
qed

theorem udp_request_retries_witness:
  "udp_request (\<lambda>host port packet k. if k = 1 then Some [0x01, 0x02, 0x03] else None)
      ''192.168.1.10'' 4000 [0xFD, 0xFD] 3 \<lparr>calls = 0, events = []\<rparr>
     = ([0x01, 0x02, 0x03], \<lparr>calls = 2, events = [SendUdp, Sleep (1 / 2), SendUdp]\<rparr>)
   \<and> udp_request (\<lambda>host port packet k. None) ''192.168.1.10'' 4000 [0xFD, 0xFD] 2
      \<lparr>calls = 0, events = []\<rparr>
     = ([], \<lparr>calls = 2, events = [SendUdp, Sleep (1 / 2), SendUdp, Sleep (1 / 2)]\<rparr>)"
proof
  let ?net = "\<lambda>host port packet k. if k = (1 :: nat) then Some [0x01, 0x02, 0x03 :: byte] else None"
  have "int 1 < 3
        \<and> (\<forall>j<1. reply ?net ''192.168.1.10'' 4000 [0xFD, 0xFD] (calls \<lparr>calls = 0, events = []\<rparr> + j) = [])
        \<and> reply ?net ''192.168.1.10'' 4000 [0xFD, 0xFD] (calls \<lparr>calls = 0, events = []\<rparr> + 1) \<noteq> []"
    by (simp add: reply_def send_udp_def)
  with udp_request_retries [of 3 ?net "''192.168.1.10''" 4000 "[0xFD, 0xFD]" "\<lparr>calls = 0, events = []\<rparr>"]
  have "udp_request ?net ''192.168.1.10'' 4000 [0xFD, 0xFD] 3 \<lparr>calls = 0, events = []\<rparr> =
        (reply ?net ''192.168.1.10'' 4000 [0xFD, 0xFD] (calls \<lparr>calls = 0, events = []\<rparr> + 1),
         \<lparr>calls = 0, events = []\<rparr>\<lparr>calls := calls \<lparr>calls = 0, events = []\<rparr> + 1 + 1,
           events := events \<lparr>calls = 0, events = []\<rparr> @ concat (replicate 1 [SendUdp, Sleep (1 / 2)]) @ [SendUdp]\<rparr>)"
    by blast
  then show "udp_request ?net ''192.168.1.10'' 4000 [0xFD, 0xFD] 3 \<lparr>calls = 0, events = []\<rparr>
     = ([0x01, 0x02, 0x03], \<lparr>calls = 2, events = [SendUdp, Sleep (1 / 2), SendUdp]\<rparr>)"
    by (simp add: reply_def send_udp_def)
next
  show "udp_request (\<lambda>host port packet k. None) ''192.168.1.10'' 4000 [0xFD, 0xFD] 2
      \<lparr>calls = 0, events = []\<rparr>
     = ([], \<lparr>calls = 2, events = [SendUdp, Sleep (1 / 2), SendUdp, Sleep (1 / 2)]\<rparr>)"
    using udp_request_retries [of 2 "\<lambda>host port packet k. None" "''192.168.1.10''" 4000 "[0xFD, 0xFD]"
        "\<lparr>calls = 0, events = []\<rparr>"]
    by (simp add: reply_def send_udp_def numeral_2_eq_2)
qed

section \<open>Properties of the coordinator\<close>

text \<open>
  Claim C4, as stated, fails: when the device answers with 22 bytes that hold no 0x06,
  the decoded mapping is empty and \<open>async_update_data\<close> returns it; the cycle
  succeeds, and the empty mapping replaces the previous snapshot and is delivered.
\<close>

theorem poll_cycle_publishes_empty:
  "async_update_data
     (\<lambda>host port packet k. Some [0xFD, 0xFD, 0x02, 0x10, 0x41, 0x42, 0x43, 0x44, 0x45, 0x46, 0x47,
                                  0x48, 0x49, 0x4A, 0x4B, 0x4C, 0x4D, 0x4E, 0x4F, 0x50, 0x04, 0x31])
     \<lparr>cfg_host = ''192.168.1.10'', cfg_port = 4000, cfg_device_id = ''DEFAULT_DEVICEID'',
      cfg_password = ''1111'', cfg_params = [0x01, 0x4A]\<rparr>
     \<lparr>calls = 0, events = []\<rparr>
   = (Inr Map.empty, \<lparr>calls = 1, events = [SendUdp]\<rparr>)
   \<and> poll_cycle
     (\<lambda>host port packet k. Some [0xFD, 0xFD, 0x02, 0x10, 0x41, 0x42, 0x43, 0x44, 0x45, 0x46, 0x47,
                                  0x48, 0x49, 0x4A, 0x4B, 0x4C, 0x4D, 0x4E, 0x4F, 0x50, 0x04, 0x31])
     \<lparr>cfg_host = ''192.168.1.10'', cfg_port = 4000, cfg_device_id = ''DEFAULT_DEVICEID'',
      cfg_password = ''1111'', cfg_params = [0x01, 0x4A]\<rparr>
     (\<lparr>snapshot = [0x01 \<mapsto> IntV 1, 0x4A \<mapsto> IntV 300], delivered = []\<rparr>,
      \<lparr>calls = 0, events = []\<rparr>)
   = (Inr Map.empty,
      \<lparr>snapshot = Map.empty, delivered = [Map.empty]\<rparr>,
      \<lparr>calls = 1, events = [SendUdp]\<rparr>)"
  by (simp add: poll_cycle_def async_update_data_def udp_request_def udp_request_loop.simps
                send_udp_def build_read_packet_def encode_ascii_def ljust_def calc_checksum_def
                py_bytes_def parse_ventoexpert_response_def)

text \<open>
  Claim C4, amended. A poll cycle fails with \<open>UpdateFailed\<close> when the request cannot
  be built or when the orchestrator returns no data (exhausted retries); a failed cycle
  leaves the previous snapshot unchanged and delivers nothing. When the orchestrator
  returns data, the cycle succeeds with the decoded mapping, empty or not, which replaces
  the snapshot and is delivered to the subscribers.
\<close>

theorem poll_cycle_outcome:
  "(\<forall>err. build_read_packet (cfg_device_id cfg) (cfg_password cfg) (cfg_params cfg) = Inl err \<longrightarrow>
      poll_cycle net cfg (c, s) = (Inl (UpdateFailed (Some err)), c, s))
   \<and> (\<forall>packet data s1.
        build_read_packet (cfg_device_id cfg) (cfg_password cfg) (cfg_params cfg) = Inr packet
        \<and> udp_request net (cfg_host cfg) (cfg_port cfg) packet 3 s = (data, s1) \<longrightarrow>
        (data = [] \<longrightarrow>
           poll_cycle net cfg (c, s) = (Inl (UpdateFailed (Some (UpdateFailed None))), c, s1))
        \<and> (data \<noteq> [] \<longrightarrow>
           (\<exists>m. parse_ventoexpert_response data = Inr m
              \<and> poll_cycle net cfg (c, s)
                  = (Inr m, c\<lparr>snapshot := m, delivered := delivered c @ [m]\<rparr>, s1))))"
proof (intro conjI allI impI)
  fix err
  assume "build_read_packet (cfg_device_id cfg) (cfg_password cfg) (cfg_params cfg) = Inl err"
  then show "poll_cycle net cfg (c, s) = (Inl (UpdateFailed (Some err)), c, s)"
    by (simp add: poll_cycle_def async_update_data_def)
next
  fix packet data s1
  assume a: "build_read_packet (cfg_device_id cfg) (cfg_password cfg) (cfg_params cfg) = Inr packet
        \<and> udp_request net (cfg_host cfg) (cfg_port cfg) packet 3 s = (data, s1)"
  {
    assume "data = []"
    with a show "poll_cycle net cfg (c, s) = (Inl (UpdateFailed (Some (UpdateFailed None))), c, s1)"
      by (simp add: poll_cycle_def async_update_data_def)
  }
  {
    assume d: "data \<noteq> []"
    obtain m where m: "parse_ventoexpert_response data = Inr m"
      using parse_total_ok [of data] by blast
    with a d have "poll_cycle net cfg (c, s)
                  = (Inr m, c\<lparr>snapshot := m, delivered := delivered c @ [m]\<rparr>, s1)"
      by (simp add: poll_cycle_def async_update_data_def)
    with m show "\<exists>m. parse_ventoexpert_response data = Inr m
              \<and> poll_cycle net cfg (c, s)
                  = (Inr m, c\<lparr>snapshot := m, delivered := delivered c @ [m]\<rparr>, s1)"
      by blast
  }
qed

theorem poll_cycle_outcome_witness:
  "poll_cycle (\<lambda>host port packet k. None)
     \<lparr>cfg_host = ''192.168.1.10'', cfg_port = 4000, cfg_device_id = ''DEFAULT_DEVICEID'',
      cfg_password = ''1111'', cfg_params = [0x01, 0x4A]\<rparr>
     (\<lparr>snapshot = [0x01 \<mapsto> IntV 1, 0x4A \<mapsto> IntV 300], delivered = []\<rparr>,
      \<lparr>calls = 0, events = []\<rparr>)
   = (Inl (UpdateFailed (Some (UpdateFailed None))),
      \<lparr>snapshot = [0x01 \<mapsto> IntV 1, 0x4A \<mapsto> IntV 300], delivered = []\<rparr>,
      \<lparr>calls = 3,
       events = [SendUdp, Sleep (1 / 2), SendUdp, Sleep (1 / 2), SendUdp, Sleep (1 / 2)]\<rparr>)
   \<and> poll_cycle
     (\<lambda>host port packet k. Some [0xFD, 0xFD, 0x03, 0x10, 0x41, 0x42, 0x43, 0x44, 0x45, 0x46, 0x47,
                                  0x48, 0x49, 0x4A, 0x4B, 0x4C, 0x4D, 0x4E, 0x4F, 0x50, 0x04, 0x31,
                                  0x31, 0x31, 0x31, 0x06, 0x01, 0x00, 0x4A, 0x2C, 0x01, 0x99, 0x02])
     \<lparr>cfg_host = ''192.168.1.10'', cfg_port = 4000, cfg_device_id = ''DEFAULT_DEVICEID'',
      cfg_password = ''1111'', cfg_params = [0x01, 0x4A]\<rparr>
     (\<lparr>snapshot = [0x01 \<mapsto> IntV 1], delivered = []\<rparr>, \<lparr>calls = 0, events = []\<rparr>)
   = (Inr [0x01 \<mapsto> IntV 0, 0x4A \<mapsto> IntV 300],
      \<lparr>snapshot = [0x01 \<mapsto> IntV 0, 0x4A \<mapsto> IntV 300],
       delivered = [[0x01 \<mapsto> IntV 0, 0x4A \<mapsto> IntV 300]]\<rparr>,
      \<lparr>calls = 1, events = [SendUdp]\<rparr>)
   \<and> poll_cycle (\<lambda>host port packet k. None)
     \<lparr>cfg_host = ''192.168.1.10'', cfg_port = 4000, cfg_device_id = [CHR 0xE4],
      cfg_password = ''1111'', cfg_params = [0x01, 0x4A]\<rparr>
     (\<lparr>snapshot = [0x01 \<mapsto> IntV 1], delivered = []\<rparr>, \<lparr>calls = 0, events = []\<rparr>)
   = (Inl (UpdateFailed (Some UnicodeEncodeError)),
      \<lparr>snapshot = [0x01 \<mapsto> IntV 1], delivered = []\<rparr>, \<lparr>calls = 0, events = []\<rparr>)"
  using
    poll_cycle_outcome [of
      "\<lparr>cfg_host = ''192.168.1.10'', cfg_port = 4000, cfg_device_id = ''DEFAULT_DEVICEID'',
        cfg_password = ''1111'', cfg_params = [0x01, 0x4A]\<rparr>"
      "\<lambda>host port packet k. None"
      "\<lparr>snapshot = [0x01 \<mapsto> IntV 1, 0x4A \<mapsto> IntV 300], delivered = []\<rparr>"
      "\<lparr>calls = 0, events = []\<rparr>"]
    poll_cycle_outcome [of
      "\<lparr>cfg_host = ''192.168.1.10'', cfg_port = 4000, cfg_device_id = ''DEFAULT_DEVICEID'',
        cfg_password = ''1111'', cfg_params = [0x01, 0x4A]\<rparr>"
      "\<lambda>host port packet k. Some [0xFD, 0xFD, 0x03, 0x10, 0x41, 0x42, 0x43, 0x44, 0x45, 0x46, 0x47,
                                  0x48, 0x49, 0x4A, 0x4B, 0x4C, 0x4D, 0x4E, 0x4F, 0x50, 0x04, 0x31,
                                  0x31, 0x31, 0x31, 0x06, 0x01, 0x00, 0x4A, 0x2C, 0x01, 0x99, 0x02]"
      "\<lparr>snapshot = [0x01 \<mapsto> IntV 1], delivered = []\<rparr>"
      "\<lparr>calls = 0, events = []\<rparr>"]
    poll_cycle_outcome [of
      "\<lparr>cfg_host = ''192.168.1.10'', cfg_port = 4000, cfg_device_id = [CHR 0xE4],
        cfg_password = ''1111'', cfg_params = [0x01, 0x4A]\<rparr>"
      "\<lambda>host port packet k. None"
      "\<lparr>snapshot = [0x01 \<mapsto> IntV 1], delivered = []\<rparr>"
      "\<lparr>calls = 0, events = []\<rparr>"]
  by (simp add: udp_request_def udp_request_loop.simps send_udp_def build_read_packet_def
                encode_ascii_def ljust_def calc_checksum_def py_bytes_def
                parse_ventoexpert_response_def parse_loop.simps getitem_def slice_def)

end
